theory Spec2Isabelle
  imports Main
begin

section \<open>Strings\<close>

text \<open>
  A Python \<open>str\<close> is a sequence of code points. The model uses \<open>string\<close> and reads
  each \<open>char\<close> as one code point in the range U+0000 to U+00FF, so \<open>length\<close> counts what
  Python's \<open>len\<close> counts on such text. Content with code points above U+00FF is outside the
  model.
\<close>

definition lower_char :: "char \<Rightarrow> char" where
  \<comment> \<open>\<open>str.lower()\<close> on one code point below U+0100: \<open>A\<close>-\<open>Z\<close> and the Latin-1 capitals
      U+00C0 to U+00DE (without the multiplication sign U+00D7) move up by 32.\<close>
  "lower_char c =
     (let n = (of_char c :: nat)
      in if (65 \<le> n \<and> n \<le> 90) \<or> (192 \<le> n \<and> n \<le> 222 \<and> n \<noteq> 215)
         then char_of (n + 32) else c)"

definition lower :: "string \<Rightarrow> string" where
  "lower s = map lower_char s"

definition isspace :: "char \<Rightarrow> bool" where
  \<comment> \<open>the code points below U+0100 that \<open>str.strip()\<close> removes\<close>
  "isspace c = ((of_char c :: nat) \<in> {9, 10, 11, 12, 13, 28, 29, 30, 31, 32, 133, 160})"

definition strip :: "string \<Rightarrow> string" where
  "strip s = rev (dropWhile isspace (rev (dropWhile isspace s)))"

definition digit_char :: "nat \<Rightarrow> char" where
  "digit_char d = char_of (48 + d)"

fun str_nat :: "nat \<Rightarrow> string" where
  "str_nat n = (if n < 10 then [digit_char n] else str_nat (n div 10) @ [digit_char (n mod 10)])"

definition str_bool :: "bool \<Rightarrow> string" where
  "str_bool b = (if b then ''True'' else ''False'')"

fun join :: "string \<Rightarrow> string list \<Rightarrow> string" where
  "join sep [] = []"
| "join sep [x] = x"
| "join sep (x # y # ys) = x @ sep @ join sep (y # ys)"

section \<open>Regular expressions: the fragment \<open>re.sub\<close> is called with\<close>

text \<open>
  \<open>sanitize\<close> calls \<open>re.sub(pattern, '', content, flags)\<close> with patterns that are sequences
  of single-character atoms, each taken once, or under \<open>*\<close> (greedy), \<open>*?\<close> (lazy) or \<open>?\<close>
  (greedy). All calls pass \<open>re.IGNORECASE\<close>; the only \<open>.\<close> occurs under \<open>re.DOTALL\<close>.
  \<open>re_match\<close> is the backtracking search of Python's engine on this fragment: it returns
  the text left after the first match in the engine's order of preference.

  A literal matches a character when both have the same lower-case form. This is what
  \<open>re.IGNORECASE\<close> does on code points below U+0100. Above them it also lets \<open>i\<close> match
  U+0130 and U+0131, \<open>s\<close> match U+017F and \<open>k\<close> match U+212A; such content is outside the
  strings of this theory.
\<close>

datatype atom =
    Lit char      \<comment> \<open>a literal character, compared case-insensitively\<close>
  | NotLit char   \<comment> \<open>\<open>[^c]\<close>\<close>
  | AnyAll        \<comment> \<open>\<open>.\<close> under \<open>re.DOTALL\<close>\<close>

fun atom_match :: "atom \<Rightarrow> char \<Rightarrow> bool" where
  "atom_match (Lit x) c = (lower_char c = lower_char x)"
| "atom_match (NotLit x) c = (lower_char c \<noteq> lower_char x)"
| "atom_match AnyAll c = True"

datatype item =
    One atom      \<comment> \<open>\<open>a\<close>\<close>
  | Greedy atom   \<comment> \<open>\<open>a*\<close>\<close>
  | Lazy atom     \<comment> \<open>\<open>a*?\<close>\<close>
  | Opt atom      \<comment> \<open>\<open>a?\<close>\<close>

fun re_match :: "item list \<Rightarrow> string \<Rightarrow> string option" where
  "re_match [] s = Some s"
| "re_match (One a # r) [] = None"
| "re_match (One a # r) (c # cs) = (if atom_match a c then re_match r cs else None)"
| "re_match (Greedy a # r) [] = re_match r []"
| "re_match (Greedy a # r) (c # cs) =
     (if atom_match a c
      then (case re_match (Greedy a # r) cs of
              Some t \<Rightarrow> Some t
            | None \<Rightarrow> re_match r (c # cs))
      else re_match r (c # cs))"
| "re_match (Lazy a # r) [] = re_match r []"
| "re_match (Lazy a # r) (c # cs) =
     (case re_match r (c # cs) of
        Some t \<Rightarrow> Some t
      | None \<Rightarrow> if atom_match a c then re_match (Lazy a # r) cs else None)"
| "re_match (Opt a # r) [] = re_match r []"
| "re_match (Opt a # r) (c # cs) =
     (if atom_match a c
      then (case re_match r cs of
              Some t \<Rightarrow> Some t
            | None \<Rightarrow> re_match r (c # cs))
      else re_match r (c # cs))"

text \<open>
  \<open>re.sub(p, '', s)\<close>: scan from the left; where the pattern matches, drop the match and go
  on after it; elsewhere keep the character. An empty match deletes nothing and the scan
  moves on by one character.
\<close>

fun re_sub :: "item list \<Rightarrow> string \<Rightarrow> string" where
  "re_sub p [] = []"
| "re_sub p (c # cs) =
     (case re_match p (c # cs) of
        None \<Rightarrow> c # re_sub p cs
      | Some t \<Rightarrow> if length t < length (c # cs) then re_sub p t else c # re_sub p cs)"

definition lits :: "string \<Rightarrow> item list" where
  "lits s = map (\<lambda>c. One (Lit c)) s"

definition paired_pattern :: "string \<Rightarrow> item list" where
  \<comment> \<open>\<open><tag[^>]*>.*?</tag>\<close>\<close>
  "paired_pattern tag =
     lits (''<'' @ tag) @ [Greedy (NotLit CHR ''>''), One (Lit CHR ''>''), Lazy AnyAll]
       @ lits (''</'' @ tag @ ''>'')"

definition single_pattern :: "string \<Rightarrow> item list" where
  \<comment> \<open>\<open><tag[^>]*/?>\<close>\<close>
  "single_pattern tag =
     lits (''<'' @ tag) @ [Greedy (NotLit CHR ''>''), Opt (Lit CHR ''/''), One (Lit CHR ''>'')]"

section \<open>\<open>models/spec_input.py\<close>\<close>

type_synonym timestamp = nat

record spec_input =
  content :: string
  format :: string
  metadata :: "(string \<times> string) list"
  created_at :: timestamp
  sanitized_content :: "string option"

definition VALID_FORMATS :: "string set" where
  "VALID_FORMATS = {''markdown'', ''text'', ''html''}"

definition MIN_CONTENT_LENGTH :: nat where
  "MIN_CONTENT_LENGTH = 2"

definition SpecInput ::
  "string \<Rightarrow> string option \<Rightarrow> (string \<times> string) list option \<Rightarrow> timestamp \<Rightarrow> spec_input" where
  \<comment> \<open>\<open>__init__\<close>; \<open>None\<close> stands for an argument that is \<open>None\<close> or left out, the last
      argument is the reading of the clock\<close>
  "SpecInput c fmt md now =
     \<lparr>content = c,
      format = (case fmt of None \<Rightarrow> ''text'' | Some f \<Rightarrow> if f = [] then ''text'' else lower f),
      metadata = (case md of None \<Rightarrow> [] | Some m \<Rightarrow> m),
      created_at = now,
      sanitized_content = None\<rparr>"

definition is_valid :: "spec_input \<Rightarrow> bool" where
  "is_valid sp =
     (if length (strip (content sp)) < MIN_CONTENT_LENGTH then False
      else if format sp \<notin> VALID_FORMATS then False
      else True)"

definition harmful_tags :: "string list" where
  "harmful_tags = [''iframe'', ''object'', ''embed'', ''form'', ''input'']"

definition sanitize_text :: "string \<Rightarrow> string" where
  \<comment> \<open>what \<open>sanitize\<close> computes from the content when nothing is cached\<close>
  "sanitize_text c =
     strip (foldl (\<lambda>c tag. re_sub (single_pattern tag) (re_sub (paired_pattern tag) c))
                  (re_sub (paired_pattern ''script'') c) harmful_tags)"

definition sanitize :: "spec_input \<Rightarrow> string \<times> spec_input" where
  "sanitize sp =
     (case sanitized_content sp of
        Some cached \<Rightarrow> (cached, sp)
      | None \<Rightarrow> (let r = sanitize_text (content sp)
                in (r, sp\<lparr>sanitized_content := Some r\<rparr>)))"

definition spec_str :: "spec_input \<Rightarrow> string" where
  \<comment> \<open>\<open>__str__\<close>\<close>
  "spec_str sp =
     ''SpecInput(format='' @ format sp @ '', length='' @ str_nat (length (content sp))
       @ '', valid='' @ str_bool (is_valid sp) @ '')''"

text \<open>
  What a caller can do to an instance between two calls: assign to its public fields, or
  call its methods.
\<close>

datatype event =
    Assign_content string
  | Assign_format string
  | Assign_metadata "(string \<times> string) list"
  | Call_is_valid
  | Call_sanitize

fun apply_event :: "spec_input \<Rightarrow> event \<Rightarrow> spec_input" where
  "apply_event sp (Assign_content c) = sp\<lparr>content := c\<rparr>"
| "apply_event sp (Assign_format f) = sp\<lparr>format := f\<rparr>"
| "apply_event sp (Assign_metadata m) = sp\<lparr>metadata := m\<rparr>"
| "apply_event sp Call_is_valid = sp"
| "apply_event sp Call_sanitize = snd (sanitize sp)"

section \<open>\<open>services/spec_input_service.py\<close>\<close>

datatype dval =
    DInt nat
  | DStr string
  | DIso timestamp          \<comment> \<open>the \<open>isoformat()\<close> text of a time\<close>
  | DList "string list"

record processing_result =
  success :: bool
  message :: string
  data :: "(string \<times> dval) list"
  timestamp :: timestamp

definition SpecInputProcessingResult ::
  "bool \<Rightarrow> string \<Rightarrow> (string \<times> dval) list option \<Rightarrow> timestamp \<Rightarrow> processing_result" where
  "SpecInputProcessingResult ok msg d now =
     \<lparr>success = ok, message = msg, data = (case d of None \<Rightarrow> [] | Some m \<Rightarrow> m),
      timestamp = now\<rparr>"

text \<open>
  Arguments are Python objects. A \<open>SpecInput\<close> instance is passed by reference: \<open>PSpec a\<close>
  is the instance stored at position \<open>a\<close> of the object store. The service keeps references
  in its history, and \<open>sanitize\<close> writes the cache of the instance in the store. A position
  beyond the end of the store refers to no object; \<open>instance_of\<close> treats it like an object
  of another type.

  The clock is read by the caller of the model: each \<open>datetime.now\<close> of the source is a
  \<open>timestamp\<close> argument.

  The logger is the \<open>logging.Logger\<close> given to the constructor. A call of \<open>info\<close> or \<open>error\<close>
  hands the record to the logger's handlers; it returns normally, and the record is in
  \<open>log\<close>, unless a handler raises, and then the exception leaves the call. A \<open>logger\<close> says
  for each of the two levels whether a handler raises, and with which text. The logger
  that the constructor takes from \<open>logging.getLogger\<close> when none is given raises nothing.
\<close>

datatype pyobj = PNone | PStr string | PInt int | PSpec nat

datatype exn =
    ValueError string
  | AttributeError string
  | HandlerError string     \<comment> \<open>an exception raised by a handler of the logger\<close>

record logger =
  info_raises :: "string option"
  error_raises :: "string option"

record world =
  objects :: "spec_input list"
  processed_specs :: "nat list"
  logger :: logger
  log :: "(string \<times> string) list"

definition getLogger :: logger where
  "getLogger = \<lparr>info_raises = None, error_raises = None\<rparr>"

definition SpecInputService :: "logger option \<Rightarrow> spec_input list \<Rightarrow> world" where
  \<comment> \<open>a new service, with the logger given or the default one, beside the given instances\<close>
  "SpecInputService lg objs =
     \<lparr>objects = objs, processed_specs = [],
      logger = (case lg of None \<Rightarrow> getLogger | Some l \<Rightarrow> l), log = []\<rparr>"

definition logger_info :: "string \<Rightarrow> world \<Rightarrow> exn + world" where
  "logger_info msg w =
     (case info_raises (logger w) of
        None \<Rightarrow> Inr (w\<lparr>log := log w @ [(''INFO'', msg)]\<rparr>)
      | Some m \<Rightarrow> Inl (HandlerError m))"

definition logger_error :: "string \<Rightarrow> world \<Rightarrow> exn + world" where
  "logger_error msg w =
     (case error_raises (logger w) of
        None \<Rightarrow> Inr (w\<lparr>log := log w @ [(''ERROR'', msg)]\<rparr>)
      | Some m \<Rightarrow> Inl (HandlerError m))"

definition instance_of :: "world \<Rightarrow> pyobj \<Rightarrow> (nat \<times> spec_input) option" where
  "instance_of w x =
     (case x of
        PSpec a \<Rightarrow> if a < length (objects w) then Some (a, objects w ! a) else None
      | _ \<Rightarrow> None)"

definition isinstance_SpecInput :: "world \<Rightarrow> pyobj \<Rightarrow> bool" where
  "isinstance_SpecInput w x = (instance_of w x \<noteq> None)"

definition process_body ::
  "timestamp \<Rightarrow> timestamp \<Rightarrow> nat \<Rightarrow> spec_input \<Rightarrow> world \<Rightarrow> (exn + processing_result) \<times> world" where
  \<comment> \<open>the body of the \<open>try\<close> block\<close>
  "process_body t_proc t_res a sp w =
     (let (sanitized, sp') = sanitize sp;
          w1 = w\<lparr>objects := (objects w)[a := sp']\<rparr>;
          processed_data =
            [(''original_length'', DInt (length (content sp'))),
             (''sanitized_length'', DInt (length sanitized)),
             (''format'', DStr (format sp')),
             (''created_at'', DIso (created_at sp')),
             (''processed_at'', DIso t_proc)];
          w2 = w1\<lparr>processed_specs := processed_specs w1 @ [a]\<rparr>
      in case logger_info (''Successfully processed spec: '' @ spec_str sp') w2 of
           Inl e \<Rightarrow> (Inl e, w2)
         | Inr w3 \<Rightarrow>
             (Inr (SpecInputProcessingResult True ''Specification processed successfully''
                     (Some processed_data) t_res), w3))"

text \<open>
  On a \<open>str\<close> content the only operation of the \<open>try\<close> block that can fail is the call of
  \<open>logger.info\<close>, which comes after the append to the history. The \<open>except\<close> handler of the
  source is the branch for \<open>Inl\<close> in \<open>process_spec\<close>; an exception of its own call of
  \<open>logger.error\<close> leaves \<open>process_spec\<close>.
\<close>

definition str_exn :: "exn \<Rightarrow> string" where
  "str_exn e = (case e of ValueError m \<Rightarrow> m | AttributeError m \<Rightarrow> m | HandlerError m \<Rightarrow> m)"

definition process_spec ::
  "timestamp \<Rightarrow> timestamp \<Rightarrow> pyobj \<Rightarrow> world \<Rightarrow> (exn + processing_result) \<times> world" where
  \<comment> \<open>\<open>t_proc\<close> and \<open>t_res\<close> are the clock readings for \<open>processed_at\<close> and for the result\<close>
  "process_spec t_proc t_res x w =
     (case instance_of w x of
        None \<Rightarrow>
          (Inr (SpecInputProcessingResult False ''Invalid input: must be SpecInput instance''
                  None t_res), w)
      | Some (a, sp) \<Rightarrow>
          if \<not> is_valid sp
          then (Inl (ValueError (''Invalid specification: '' @ spec_str sp)), w)
          else (case process_body t_proc t_res a sp w of
                  (Inr r, w') \<Rightarrow> (Inr r, w')
                | (Inl e, w') \<Rightarrow>
                    (let error_msg = ''Error processing specification: '' @ str_exn e
                     in case logger_error error_msg w' of
                          Inl e' \<Rightarrow> (Inl e', w')
                        | Inr w'' \<Rightarrow>
                            (Inr (SpecInputProcessingResult False error_msg None t_res), w''))))"

definition get_validation_errors :: "string list \<Rightarrow> spec_input \<Rightarrow> string list" where
  \<comment> \<open>\<open>_get_validation_errors\<close>; \<open>order\<close> is the order in which the run iterates over the set
      \<open>VALID_FORMATS\<close> in \<open>', '.join(...)\<close>\<close>
  "get_validation_errors order sp =
     (let errors = [];
          errors = (if length (strip (content sp)) < MIN_CONTENT_LENGTH
                    then errors @ [''Content too short (minimum '' @ str_nat MIN_CONTENT_LENGTH
                                     @ '' characters)'']
                    else errors);
          errors = (if format sp \<notin> VALID_FORMATS
                    then errors @ [''Invalid format '' @ [CHR 0x27] @ format sp @ [CHR 0x27]
                                     @ ''. Valid formats: '' @ join '', '' order]
                    else errors)
      in errors)"

definition type_name :: "pyobj \<Rightarrow> string" where
  \<comment> \<open>\<open>type(x).__name__\<close>\<close>
  "type_name x =
     (case x of PNone \<Rightarrow> ''NoneType'' | PStr s \<Rightarrow> ''str'' | PInt i \<Rightarrow> ''int''
      | PSpec a \<Rightarrow> ''SpecInput'')"

definition handle_invalid_spec ::
  "timestamp \<Rightarrow> string list \<Rightarrow> pyobj \<Rightarrow> world \<Rightarrow> exn + processing_result" where
  "handle_invalid_spec t_res order x w =
     (case x of
        PNone \<Rightarrow> Inr (SpecInputProcessingResult False ''Cannot process null specification''
                        None t_res)
      | _ \<Rightarrow>
         (case instance_of w x of
            None \<Rightarrow> Inl (AttributeError ([CHR 0x27] @ type_name x @ [CHR 0x27]
                                        @ '' object has no attribute '' @ [CHR 0x27]
                                        @ ''content'' @ [CHR 0x27]))
          | Some (a, sp) \<Rightarrow>
              Inr (SpecInputProcessingResult False (''Invalid specification: '' @ spec_str sp)
                     (Some [(''errors'', DList (get_validation_errors order sp))]) t_res)))"


definition get_processed_specs :: "world \<Rightarrow> nat list" where
  "get_processed_specs w = processed_specs w"


section \<open>The specification's words\<close>

text \<open>
  The definitions of this section are not taken from the code. \<open>starts_ci\<close>, \<open>after_gt\<close>,
  \<open>after_first\<close>, \<open>block_end\<close> and \<open>remove_blocks\<close> follow the wording of the specification:
  they say what a case-insensitive prefix, a \<open><tag ...> ... </tag>\<close> block and the removal
  of such blocks are, without a regular expression, and the theorems compare them with the
  code above. The others are the predicates in which the theorems are stated.
\<close>

definition starts_ci :: "string \<Rightarrow> string \<Rightarrow> bool" where
  \<comment> \<open>\<open>s\<close> begins with \<open>p\<close>, case ignored\<close>
  "starts_ci p s = (length p \<le> length s \<and> lower (take (length p) s) = lower p)"

fun after_gt :: "string \<Rightarrow> string option" where
  \<comment> \<open>the text after the first \<open>>\<close>\<close>
  "after_gt [] = None"
| "after_gt (c # cs) = (if c = CHR ''>'' then Some cs else after_gt cs)"

fun after_first :: "string \<Rightarrow> string \<Rightarrow> string option" where
  \<comment> \<open>the text after the first occurrence of \<open>q\<close>, case ignored\<close>
  "after_first q [] = (if q = [] then Some [] else None)"
| "after_first q (c # cs) =
     (if starts_ci q (c # cs) then Some (drop (length q) (c # cs)) else after_first q cs)"

definition block_end :: "string \<Rightarrow> string \<Rightarrow> string option" where
  \<comment> \<open>if \<open>s\<close> begins with a \<open><tag ...> ... </tag>\<close> block, the text after the shortest one\<close>
  "block_end tag s =
     (if starts_ci (''<'' @ tag) s
      then (case after_gt (drop (length (''<'' @ tag)) s) of
              None \<Rightarrow> None
            | Some body \<Rightarrow> after_first (''</'' @ tag @ ''>'') body)
      else None)"

function remove_blocks :: "string \<Rightarrow> string \<Rightarrow> string" where
  \<comment> \<open>remove every block met while reading \<open>s\<close> from the left\<close>
  "remove_blocks tag [] = []"
| "remove_blocks tag (c # cs) =
     (case block_end tag (c # cs) of
        None \<Rightarrow> c # remove_blocks tag cs
      | Some rest \<Rightarrow> remove_blocks tag rest)"
  by pat_completeness auto
termination
proof (relation "measure (\<lambda>(tag, s). length s)")
  show "wf (measure (\<lambda>(tag, s). length s))" by simp
next
  fix tag :: string and c :: char and cs :: string
  show "((tag, cs), (tag, c # cs)) \<in> measure (\<lambda>(tag, s). length s)" by simp
next
  fix tag :: string and c :: char and cs rest :: string
  assume b: "block_end tag (c # cs) = Some rest"
  have gt: "after_gt s = Some u \<Longrightarrow> length u < length s" for s u
    by (induction s) (auto split: if_splits)
  have fi: "after_first q s = Some u \<Longrightarrow> length u \<le> length s" for q s u
    by (induction s) (auto split: if_splits)
  from b obtain body where
    1: "after_gt (drop (length (''<'' @ tag)) (c # cs)) = Some body" and
    2: "after_first (''</'' @ tag @ ''>'') body = Some rest"
    by (auto simp add: block_end_def split: if_splits option.splits)
  from gt [OF 1] fi [OF 2] have "length rest < length (c # cs)" by simp
  then show "((tag, rest), (tag, c # cs)) \<in> measure (\<lambda>(tag, s). length s)" by simp
qed

fun removable :: "item list \<Rightarrow> string \<Rightarrow> bool" where
  \<comment> \<open>somewhere in the text the pattern has a match that is not empty\<close>
  "removable p [] = False"
| "removable p (c # cs) =
     ((case re_match p (c # cs) of None \<Rightarrow> False | Some t \<Rightarrow> length t < length (c # cs))
      \<or> removable p cs)"



definition case_spelling :: "string \<Rightarrow> string \<Rightarrow> bool" where
  \<comment> \<open>\<open>f\<close> spells the lower-case ASCII word \<open>name\<close>, each letter in either case\<close>
  "case_spelling f name =
     list_all2 (\<lambda>x y. x = y \<or> (of_char x :: nat) + 32 = of_char y) f name"

fun substring_in :: "string \<Rightarrow> string \<Rightarrow> bool" where
  \<comment> \<open>Python's \<open>p in s\<close>\<close>
  "substring_in p [] = (p = [])"
| "substring_in p (c # cs) = (take (length p) (c # cs) = p \<or> substring_in p cs)"

definition cache_consistent :: "spec_input \<Rightarrow> bool" where
  \<comment> \<open>nothing is cached, or what is cached was computed from the present content\<close>
  "cache_consistent sp =
     (sanitized_content sp = None \<or> sanitized_content sp = Some (sanitize_text (content sp)))"

section \<open>Auxiliary facts\<close>

lemma of_char_lower_char:
  "(of_char (lower_char c) :: nat) =
     (let n = of_char c
      in if (65 \<le> n \<and> n \<le> 90) \<or> (192 \<le> n \<and> n \<le> 222 \<and> n \<noteq> 215) then n + 32 else n)"
  by (auto simp add: lower_char_def Let_def)

lemma lower_char_gt [simp]: "lower_char c = lower_char CHR ''>'' \<longleftrightarrow> c = CHR ''>''"
proof -
  have "lower_char c = lower_char CHR ''>'' \<longleftrightarrow>
        (of_char (lower_char c) :: nat) = of_char (lower_char CHR ''>'')"
    by (simp only: of_char_eq_iff)
  also have "\<dots> \<longleftrightarrow> (of_char c :: nat) = 62"
    by (auto simp add: of_char_lower_char Let_def)
  also have "\<dots> \<longleftrightarrow> (of_char c :: nat) = of_char CHR ''>''"
    by simp
  also have "\<dots> \<longleftrightarrow> c = CHR ''>''"
    by (simp only: of_char_eq_iff)
  finally show ?thesis .
qed

lemma starts_ci_Nil [simp]: "starts_ci [] s"
  by (simp add: starts_ci_def lower_def)

lemma starts_ci_Cons_Nil [simp]: "\<not> starts_ci (x # p) []"
  by (simp add: starts_ci_def)

lemma starts_ci_Cons_Cons [simp]:
  "starts_ci (x # p) (c # cs) \<longleftrightarrow> lower_char c = lower_char x \<and> starts_ci p cs"
  by (auto simp add: starts_ci_def lower_def)

lemma re_match_lits:
  "re_match (lits p @ r) s = (if starts_ci p s then re_match r (drop (length p) s) else None)"
proof (induction p arbitrary: s)
  case Nil
  show ?case by (simp add: lits_def)
next
  case (Cons x p)
  have step: "lits (x # p) @ r = One (Lit x) # (lits p @ r)"
    by (simp add: lits_def)
  show ?case
  proof (cases s)
    case Nil
    then show ?thesis by (simp add: step)
  next
    case (Cons c cs)
    then show ?thesis using Cons.IH [of cs] by (simp add: step)
  qed
qed

lemma re_match_tag_end:
  "re_match (Greedy (NotLit CHR ''>'') # One (Lit CHR ''>'') # r) s =
     (case after_gt s of None \<Rightarrow> None | Some t \<Rightarrow> re_match r t)"
  by (induction s) (auto split: option.splits)

lemma re_match_tag_end_opt:
  "re_match (Greedy (NotLit CHR ''>'') # Opt (Lit CHR ''/'') # One (Lit CHR ''>'') # r) s =
     (case after_gt s of None \<Rightarrow> None | Some t \<Rightarrow> re_match r t)"
proof (induction s)
  case Nil
  show ?case by simp
next
  case (Cons c cs)
  show ?case
  proof (cases "c = CHR ''>''")
    case True
    then show ?thesis by (simp add: lower_char_def)
  next
    case False
    show ?thesis
    proof (cases "re_match (Greedy (NotLit CHR ''>'') # Opt (Lit CHR ''/'') # One (Lit CHR ''>'') # r) cs")
      case (Some t)
      then show ?thesis using False Cons.IH by simp
    next
      case None
      then have "cs \<noteq> [] \<Longrightarrow> hd cs = CHR ''>'' \<Longrightarrow> re_match r (tl cs) = None"
        using Cons.IH by (cases cs) (auto split: option.splits)
      then have "re_match (One (Lit CHR ''>'') # r) cs = None"
        by (cases cs) auto
      then show ?thesis using False None Cons.IH by simp
    qed
  qed
qed

lemma re_match_lazy_any:
  "q \<noteq> [] \<Longrightarrow> re_match (Lazy AnyAll # lits q) s = after_first q s"
proof (induction s)
  case Nil
  then show ?case using re_match_lits [of q "[]" "[]"] by (cases q) auto
next
  case (Cons c cs)
  then show ?case using re_match_lits [of q "[]" "c # cs"] by simp
qed

lemma re_match_paired: "re_match (paired_pattern tag) s = block_end tag s"
proof -
  have q: "''</'' @ tag @ ''>'' \<noteq> []" by simp
  have "re_match (paired_pattern tag) s =
        re_match (lits (''<'' @ tag)
                  @ (Greedy (NotLit CHR ''>'') # One (Lit CHR ''>'')
                     # (Lazy AnyAll # lits (''</'' @ tag @ ''>'')))) s"
    by (simp add: paired_pattern_def)
  also have "\<dots> = block_end tag s"
    unfolding re_match_lits re_match_tag_end re_match_lazy_any [OF q] block_end_def
    by (simp split: option.splits)
  finally show ?thesis .
qed

lemma block_end_shorter: "block_end tag s = Some t \<Longrightarrow> length t < length s"
proof -
  assume b: "block_end tag s = Some t"
  have gt: "after_gt s = Some u \<Longrightarrow> length u < length s" for s u
    by (induction s) (auto split: if_splits)
  have fi: "after_first q s = Some u \<Longrightarrow> length u \<le> length s" for q s u
    by (induction s) (auto split: if_splits)
  from b obtain body where
    1: "after_gt (drop (length (''<'' @ tag)) s) = Some body" and
    2: "after_first (''</'' @ tag @ ''>'') body = Some t"
    by (auto simp add: block_end_def split: if_splits option.splits)
  from gt [OF 1] fi [OF 2] show ?thesis by simp
qed

lemma re_sub_paired: "re_sub (paired_pattern tag) s = remove_blocks tag s"
proof (induction tag s rule: remove_blocks.induct)
  case (1 tag)
  show ?case by simp
next
  case (2 tag c cs)
  show ?case
  proof (cases "block_end tag (c # cs)")
    case None
    then show ?thesis using 2 by (simp add: re_match_paired)
  next
    case (Some t)
    then show ?thesis using 2 block_end_shorter [OF Some] by (simp add: re_match_paired)
  qed
qed

lemma length_re_sub: "length (re_sub p s) \<le> length s"
proof (induction p s rule: re_sub.induct)
  case (1 p)
  show ?case by simp
next
  case (2 p c cs)
  then show ?case by (auto split: option.splits)
qed

lemma length_strip: "length (strip s) \<le> length s"
proof -
  have "length (strip s) \<le> length (dropWhile isspace s)"
    unfolding strip_def using length_dropWhile_le [of isspace "rev (dropWhile isspace s)"] by simp
  also have "\<dots> \<le> length s" by (rule length_dropWhile_le)
  finally show ?thesis .
qed

lemma length_sanitize_text: "length (sanitize_text c) \<le> length c"
proof -
  have step: "length (re_sub (single_pattern tag) (re_sub (paired_pattern tag) x)) \<le> length x"
    for tag x
    using length_re_sub [of "single_pattern tag" "re_sub (paired_pattern tag) x"]
          length_re_sub [of "paired_pattern tag" x] by simp
  have fold: "length (foldl (\<lambda>c tag. re_sub (single_pattern tag) (re_sub (paired_pattern tag) c)) x tags)
                \<le> length x" for x tags
  proof (induction tags arbitrary: x)
    case Nil
    show ?case by simp
  next
    case (Cons t tags)
    show ?case using Cons [of "re_sub (single_pattern t) (re_sub (paired_pattern t) x)"] step [of t x]
      by simp
  qed
  show ?thesis
    unfolding sanitize_text_def
    using length_strip fold length_re_sub [of "paired_pattern ''script''" c]
    by (meson le_trans)
qed


lemma lower_text: "lower ''text'' = ''text''"
  by code_simp

lemma str_nat_length_x: "str_nat (length ''x'') = ''1''"
  by code_simp

lemma str_nat_MIN: "str_nat MIN_CONTENT_LENGTH = ''2''"
  by code_simp

lemma sanitize_cached: "sanitized_content (snd (sanitize sp)) = Some (fst (sanitize sp))"
  by (simp add: sanitize_def Let_def split: option.splits)

lemma sanitize_hit: "sanitized_content sp = Some r \<Longrightarrow> sanitize sp = (r, sp)"
  by (simp add: sanitize_def)

lemma apply_event_keeps_cache:
  "sanitized_content sp = Some r \<Longrightarrow> sanitized_content (apply_event sp e) = Some r"
  by (cases e) (simp_all add: sanitize_hit)

lemma events_keep_cache:
  "sanitized_content sp = Some r \<Longrightarrow> sanitized_content (foldl apply_event sp evs) = Some r"
  by (induction evs arbitrary: sp) (simp_all add: apply_event_keeps_cache)

lemma sanitize_text_ab: "sanitize_text ''ab'' = ''ab''"
  by code_simp

lemma lower_char_lower_letter:
  "97 \<le> (of_char y :: nat) \<Longrightarrow> of_char y \<le> (122 :: nat) \<Longrightarrow> lower_char y = y"
  by (simp add: lower_char_def Let_def)

lemma lower_char_upper_letter:
  "(of_char x :: nat) + 32 = of_char y \<Longrightarrow> 97 \<le> (of_char y :: nat)
     \<Longrightarrow> of_char y \<le> (122 :: nat) \<Longrightarrow> lower_char x = y"
proof -
  assume a: "(of_char x :: nat) + 32 = of_char y" and "97 \<le> (of_char y :: nat)"
    and "of_char y \<le> (122 :: nat)"
  then have "65 \<le> (of_char x :: nat) \<and> (of_char x :: nat) \<le> 90" by arith
  then have "lower_char x = char_of ((of_char x :: nat) + 32)"
    by (simp add: lower_char_def Let_def)
  also have "\<dots> = y" by (simp only: a char_of_char)
  finally show ?thesis .
qed

lemma case_spelling_lower:
  "case_spelling f name \<Longrightarrow> \<forall>y \<in> set name. 97 \<le> (of_char y :: nat) \<and> of_char y \<le> (122 :: nat)
     \<Longrightarrow> lower f = name"
  unfolding case_spelling_def lower_def
proof (induction f name rule: list_all2_induct)
  case Nil
  show ?case by simp
next
  case (Cons x xs y ys)
  have "lower_char x = y"
    using Cons.hyps(1) Cons.prems lower_char_lower_letter [of y] lower_char_upper_letter [of x y]
    by auto
  then show ?case using Cons by simp
qed

lemma valid_names_lower_letters:
  "name \<in> {''text'', ''markdown'', ''html''}
     \<Longrightarrow> \<forall>y \<in> set name. 97 \<le> (of_char y :: nat) \<and> of_char y \<le> (122 :: nat)"
proof -
  assume "name \<in> {''text'', ''markdown'', ''html''}"
  then have "name = ''text'' \<or> name = ''markdown'' \<or> name = ''html''" by simp
  then show ?thesis
  proof (elim disjE)
    assume "name = ''text''" then show ?thesis by simp
  next
    assume "name = ''markdown''" then show ?thesis by simp
  next
    assume "name = ''html''" then show ?thesis by simp
  qed
qed

lemma is_valid_SpecInput:
  "is_valid (SpecInput c fmt md t) \<longleftrightarrow>
      2 \<le> length (strip c)
      \<and> (case fmt of None \<Rightarrow> ''text'' | Some f \<Rightarrow> if f = [] then ''text'' else lower f)
            \<in> {''text'', ''markdown'', ''html''}"
proof -
  have "{''markdown'', ''text'', ''html''} = {''text'', ''markdown'', ''html''}"
    by (rule insert_commute)
  then show ?thesis
    by (simp add: is_valid_def SpecInput_def MIN_CONTENT_LENGTH_def VALID_FORMATS_def not_less)
qed

lemma strip_ok: "strip ''ok'' = ''ok''"
  by code_simp

lemma strip_x_padded: "strip '' x  '' = ''x''"
  by code_simp

lemma process_body_returns:
  "info_raises (logger w) = None \<Longrightarrow>
   process_body t_proc t_res a sp w =
     (Inr \<lparr>success = True, message = ''Specification processed successfully'',
            data = [(''original_length'', DInt (length (content sp))),
                    (''sanitized_length'', DInt (length (fst (sanitize sp)))),
                    (''format'', DStr (format sp)),
                    (''created_at'', DIso (created_at sp)),
                    (''processed_at'', DIso t_proc)],
            timestamp = t_res\<rparr>,
      w\<lparr>objects := (objects w)[a := snd (sanitize sp)],
        processed_specs := processed_specs w @ [a],
        log := log w @ [(''INFO'', ''Successfully processed spec: '' @ spec_str (snd (sanitize sp)))]\<rparr>)"
  by (cases "sanitized_content sp")
     (simp_all add: process_body_def sanitize_def Let_def SpecInputProcessingResult_def
        logger_info_def)

lemma process_body_raises:
  "info_raises (logger w) = Some m \<Longrightarrow>
   process_body t_proc t_res a sp w =
     (Inl (HandlerError m),
      w\<lparr>objects := (objects w)[a := snd (sanitize sp)],
        processed_specs := processed_specs w @ [a]\<rparr>)"
  by (cases "sanitized_content sp")
     (simp_all add: process_body_def sanitize_def Let_def logger_info_def)


lemma process_spec_wrong:
  "instance_of w x = None \<Longrightarrow>
   process_spec t_proc t_res x w
     = (Inr \<lparr>success = False, message = ''Invalid input: must be SpecInput instance'',
             data = [], timestamp = t_res\<rparr>, w)"
  by (simp add: process_spec_def SpecInputProcessingResult_def)

lemma process_spec_invalid:
  "instance_of w x = Some (a, sp) \<Longrightarrow> \<not> is_valid sp \<Longrightarrow>
   process_spec t_proc t_res x w
     = (Inl (ValueError (''Invalid specification: '' @ spec_str sp)), w)"
  by (simp add: process_spec_def)

lemma process_spec_valid:
  "instance_of w x = Some (a, sp) \<Longrightarrow> is_valid sp \<Longrightarrow> info_raises (logger w) = None \<Longrightarrow>
   process_spec t_proc t_res x w = process_body t_proc t_res a sp w"
  by (simp add: process_spec_def process_body_returns)

lemma process_spec_info_raises:
  "instance_of w x = Some (a, sp) \<Longrightarrow> is_valid sp \<Longrightarrow> info_raises (logger w) = Some m
   \<Longrightarrow> error_raises (logger w) = None \<Longrightarrow>
   process_spec t_proc t_res x w
     = (Inr \<lparr>success = False, message = ''Error processing specification: '' @ m,
             data = [], timestamp = t_res\<rparr>,
        w\<lparr>objects := (objects w)[a := snd (sanitize sp)],
          processed_specs := processed_specs w @ [a],
          log := log w @ [(''ERROR'', ''Error processing specification: '' @ m)]\<rparr>)"
  by (simp add: process_spec_def process_body_raises logger_error_def str_exn_def Let_def
        SpecInputProcessingResult_def)

lemma process_spec_both_raise:
  "instance_of w x = Some (a, sp) \<Longrightarrow> is_valid sp \<Longrightarrow> info_raises (logger w) = Some m
   \<Longrightarrow> error_raises (logger w) = Some m' \<Longrightarrow>
   process_spec t_proc t_res x w
     = (Inl (HandlerError m'),
        w\<lparr>objects := (objects w)[a := snd (sanitize sp)],
          processed_specs := processed_specs w @ [a]\<rparr>)"
  by (simp add: process_spec_def process_body_raises logger_error_def str_exn_def Let_def)

lemma process_spec_success:
  assumes "process_spec t_proc t_res x w = (Inr r, w')" and "success r"
  shows "\<exists>a sp. instance_of w x = Some (a, sp) \<and> is_valid sp \<and> info_raises (logger w) = None
           \<and> process_body t_proc t_res a sp w = (Inr r, w')"
proof (cases "instance_of w x")
  case None
  then show ?thesis using assms by (auto simp add: process_spec_wrong)
next
  case (Some p)
  obtain a sp where i: "instance_of w x = Some (a, sp)" using Some by (cases p) simp
  show ?thesis
  proof (cases "is_valid sp")
    case False
    then show ?thesis using assms i by (simp add: process_spec_invalid)
  next
    case True
    show ?thesis
    proof (cases "info_raises (logger w)")
      case None
      then show ?thesis using assms i True by (simp add: process_spec_valid)
    next
      case m: (Some m)
      show ?thesis
      proof (cases "error_raises (logger w)")
        case None
        then show ?thesis using assms i True m by (auto simp add: process_spec_info_raises)
      next
        case (Some m')
        then show ?thesis using assms i True m by (simp add: process_spec_both_raise)
      qed
    qed
  qed
qed




lemma is_valid_ab: "is_valid (SpecInput ''ab'' None None 0)"
  by code_simp

lemma distinct_three:
  assumes "distinct xs" and "set xs = {a, b, c}" and "a \<noteq> b" and "a \<noteq> c" and "b \<noteq> c"
  shows "xs \<in> {[a, b, c], [a, c, b], [b, a, c], [b, c, a], [c, a, b], [c, b, a]}"
proof -
  have "length xs = card (set xs)"
    using assms(1) by (simp add: distinct_card)
  also have "\<dots> = 3"
    using assms(2-5) by simp
  finally obtain x y z where xs: "xs = [x, y, z]"
    by (auto simp add: numeral_3_eq_3 length_Suc_conv)
  have d: "x \<noteq> y" "x \<noteq> z" "y \<noteq> z"
    using assms(1) xs by auto
  have m: "x \<in> {a, b, c}" "y \<in> {a, b, c}" "z \<in> {a, b, c}"
    using assms(2) xs by auto
  show ?thesis
    using d m unfolding xs by auto
qed

lemma valid_formats_orders:
  assumes "distinct order" and "set order = VALID_FORMATS"
  shows "join '', '' order \<in>
           {''text, markdown, html'', ''text, html, markdown'', ''markdown, text, html'',
            ''markdown, html, text'', ''html, text, markdown'', ''html, markdown, text''}"
proof -
  have s: "set order = {''text'', ''markdown'', ''html''}"
    using assms(2) by (simp add: VALID_FORMATS_def insert_commute)
  have "order \<in> {[''text'', ''markdown'', ''html''], [''text'', ''html'', ''markdown''],
                  [''markdown'', ''text'', ''html''], [''markdown'', ''html'', ''text''],
                  [''html'', ''text'', ''markdown''], [''html'', ''markdown'', ''text'']}"
    by (rule distinct_three [OF assms(1) s]) simp_all
  then have "order = [''text'', ''markdown'', ''html''] \<or> order = [''text'', ''html'', ''markdown'']
           \<or> order = [''markdown'', ''text'', ''html''] \<or> order = [''markdown'', ''html'', ''text'']
           \<or> order = [''html'', ''text'', ''markdown''] \<or> order = [''html'', ''markdown'', ''text'']"
    by simp
  then show ?thesis
    by (elim disjE) simp_all
qed

lemma get_validation_errors_eq:
  "get_validation_errors order sp =
     (if length (strip (content sp)) < 2 then [''Content too short (minimum 2 characters)'']
      else [])
     @ (if format sp \<notin> {''text'', ''markdown'', ''html''}
        then [''Invalid format '' @ [CHR 0x27] @ format sp @ [CHR 0x27] @ ''. Valid formats: ''
                @ join '', '' order]
        else [])"
proof -
  have v: "VALID_FORMATS = {''text'', ''markdown'', ''html''}"
    by (simp add: VALID_FORMATS_def insert_commute)
  have m: "MIN_CONTENT_LENGTH = 2"
    by (simp add: MIN_CONTENT_LENGTH_def)
  show ?thesis
    unfolding get_validation_errors_def Let_def str_nat_MIN v
    by (simp add: m)
qed

lemma is_valid_eq:
  "is_valid sp \<longleftrightarrow> 2 \<le> length (strip (content sp)) \<and> format sp \<in> {''text'', ''markdown'', ''html''}"
  by (simp add: is_valid_def MIN_CONTENT_LENGTH_def VALID_FORMATS_def insert_commute not_less)

lemma sanitize_SpecInput: "fst (sanitize (SpecInput c fmt md t)) = sanitize_text c"
  by (simp add: sanitize_def SpecInput_def Let_def)

lemma cache_consistent_SpecInput: "cache_consistent (SpecInput c fmt md t)"
  by (simp add: cache_consistent_def SpecInput_def)

lemma cache_consistent_event:
  "cache_consistent sp \<Longrightarrow> \<forall>c'. e \<noteq> Assign_content c' \<Longrightarrow> cache_consistent (apply_event sp e)"
  by (cases e) (auto simp add: cache_consistent_def sanitize_def Let_def split: option.splits)

lemma cache_consistent_events:
  "cache_consistent sp \<Longrightarrow> \<forall>e \<in> set evs. \<forall>c'. e \<noteq> Assign_content c'
     \<Longrightarrow> cache_consistent (foldl apply_event sp evs)"
  by (induction evs arbitrary: sp) (simp_all add: cache_consistent_event)

lemma sanitize_consistent:
  "cache_consistent sp \<Longrightarrow> fst (sanitize sp) = sanitize_text (content sp)"
  by (auto simp add: cache_consistent_def sanitize_def Let_def)

lemma lower_char_lt [simp]: "lower_char c = lower_char CHR ''<'' \<longleftrightarrow> c = CHR ''<''"
proof -
  have "lower_char c = lower_char CHR ''<'' \<longleftrightarrow>
        (of_char (lower_char c) :: nat) = of_char (lower_char CHR ''<'')"
    by (simp only: of_char_eq_iff)
  also have "\<dots> \<longleftrightarrow> (of_char c :: nat) = 60"
    by (auto simp add: of_char_lower_char Let_def)
  also have "\<dots> \<longleftrightarrow> (of_char c :: nat) = of_char CHR ''<''"
    by simp
  also have "\<dots> \<longleftrightarrow> c = CHR ''<''"
    by (simp only: of_char_eq_iff)
  finally show ?thesis .
qed

lemma re_match_single:
  "re_match (single_pattern tag) s =
     (if starts_ci (''<'' @ tag) s then after_gt (drop (length (''<'' @ tag)) s) else None)"
proof -
  have "re_match (single_pattern tag) s =
        re_match (lits (''<'' @ tag)
                  @ (Greedy (NotLit CHR ''>'') # Opt (Lit CHR ''/'') # One (Lit CHR ''>'') # [])) s"
    by (simp add: single_pattern_def)
  also have "\<dots> = (if starts_ci (''<'' @ tag) s then after_gt (drop (length (''<'' @ tag)) s) else None)"
    unfolding re_match_lits re_match_tag_end_opt by (simp split: option.splits)
  finally show ?thesis .
qed

lemma starts_ci_self_append: "starts_ci p (p @ s)"
  by (simp add: starts_ci_def)

lemma after_gt_append: "CHR ''>'' \<notin> set v \<Longrightarrow> after_gt (v @ CHR ''>'' # post) = Some post"
  by (induction v) auto

lemma re_match_single_prefix:
  "CHR ''>'' \<notin> set rest \<Longrightarrow>
     re_match (single_pattern tag) (''<'' @ tag @ rest @ ''>'' @ post) = Some post"
proof -
  assume r: "CHR ''>'' \<notin> set rest"
  have "starts_ci (''<'' @ tag) ((''<'' @ tag) @ rest @ ''>'' @ post)"
    by (rule starts_ci_self_append)
  moreover have "drop (length (''<'' @ tag)) ((''<'' @ tag) @ rest @ ''>'' @ post) = rest @ ''>'' @ post"
    by simp
  ultimately show ?thesis
    using after_gt_append [OF r, of post] by (simp add: re_match_single)
qed

lemma re_sub_without_lt:
  "CHR ''<'' \<notin> set x \<Longrightarrow> re_sub (lits (''<'' @ n) @ r) x = x"
proof (induction x)
  case Nil
  show ?case by simp
next
  case (Cons c cs)
  then have "\<not> starts_ci (''<'' @ n) (c # cs)" by auto
  then have "re_match (lits (''<'' @ n) @ r) (c # cs) = None"
    by (simp only: re_match_lits if_False)
  then show ?case using Cons by simp
qed

lemma after_gt_drop_closed:
  "CHR ''>'' \<notin> set v \<Longrightarrow>
     after_gt (drop k (v @ ''>'')) = (if k \<le> length v then Some [] else None)"
proof -
  assume v: "CHR ''>'' \<notin> set v"
  show ?thesis
  proof (cases "k \<le> length v")
    case True
    have "CHR ''>'' \<notin> set (drop k v)"
      using v by (meson in_set_dropD)
    then have "after_gt (drop k v @ CHR ''>'' # []) = Some []"
      by (rule after_gt_append)
    then show ?thesis using True by simp
  next
    case False
    then show ?thesis by simp
  qed
qed

lemma paired_on_single_tag:
  assumes "CHR ''>'' \<notin> set v" and "CHR ''<'' \<notin> set v"
  shows "re_sub (paired_pattern n) (''<'' @ v @ ''>'') = ''<'' @ v @ ''>''"
proof -
  have "block_end n (CHR ''<'' # v @ ''>'') = None"
    using after_gt_drop_closed [OF assms(1), of "length n"]
    by (simp add: block_end_def)
  then have m: "re_match (paired_pattern n) (CHR ''<'' # v @ ''>'') = None"
    by (simp only: re_match_paired)
  have "re_sub (paired_pattern n) (v @ ''>'') = v @ ''>''"
    unfolding paired_pattern_def using assms(2) by (intro re_sub_without_lt) simp
  then show ?thesis using m by simp
qed

lemma single_on_single_tag:
  assumes "CHR ''>'' \<notin> set v" and "CHR ''<'' \<notin> set v"
  shows "re_sub (single_pattern n) (''<'' @ v @ ''>'') =
           (if starts_ci n (v @ ''>'') \<and> length n \<le> length v then [] else ''<'' @ v @ ''>'')"
proof -
  have tail: "re_sub (single_pattern n) (v @ ''>'') = v @ ''>''"
    unfolding single_pattern_def using assms(2) by (intro re_sub_without_lt) simp
  have d: "drop (length (''<'' @ n)) (CHR ''<'' # v @ ''>'') = drop (length n) (v @ ''>'')"
    by simp
  have p: "starts_ci (''<'' @ n) (CHR ''<'' # v @ ''>'') = starts_ci n (v @ ''>'')"
    by simp
  have m: "re_match (single_pattern n) (CHR ''<'' # v @ ''>'') =
             (if starts_ci n (v @ ''>'') \<and> length n \<le> length v then Some [] else None)"
    by (simp only: re_match_single d p after_gt_drop_closed [OF assms(1)] if_distrib
          split: if_split) simp
  show ?thesis using m tail by simp
qed

lemma sanitize_single_tag:
  assumes "tag \<in> set harmful_tags" and "CHR ''>'' \<notin> set rest" and "CHR ''<'' \<notin> set rest"
  shows "sanitize_text (''<'' @ tag @ rest @ ''>'') = []"
proof -
  define v where "v = tag @ rest"
  define s where "s = ''<'' @ v @ ''>''"
  define f where "f = (\<lambda>c tag. re_sub (single_pattern tag) (re_sub (paired_pattern tag) c))"
  have "CHR ''>'' \<notin> set tag" and "CHR ''<'' \<notin> set tag"
    using assms(1) by (auto simp add: harmful_tags_def)
  then have v: "CHR ''>'' \<notin> set v" "CHR ''<'' \<notin> set v"
    using assms(2,3) by (simp_all add: v_def)
  have f_nil: "f [] n = []" for n
    by (simp add: f_def)
  have f_s: "f s n = [] \<or> f s n = s" for n
    unfolding f_def s_def paired_on_single_tag [OF v] single_on_single_tag [OF v] by simp
  have f_tag: "f s tag = []"
    unfolding f_def s_def paired_on_single_tag [OF v] single_on_single_tag [OF v]
    by (simp add: v_def starts_ci_self_append)
  have nil: "foldl f [] tags = []" for tags
    by (induction tags) (simp_all add: f_nil)
  have fold: "tag \<in> set tags \<Longrightarrow> foldl f s tags = []" for tags
  proof (induction tags)
    case Nil
    then show ?case by simp
  next
    case (Cons n tags)
    show ?case
    proof (cases "f s n = []")
      case True
      then show ?thesis by (simp add: nil)
    next
      case False
      then have keep: "f s n = s" using f_s [of n] by simp
      have "n \<noteq> tag" using False f_tag by auto
      then have "tag \<in> set tags" using Cons.prems by simp
      then show ?thesis using Cons.IH keep by simp
    qed
  qed
  have "re_sub (paired_pattern ''script'') s = s"
    unfolding s_def by (rule paired_on_single_tag [OF v])
  then have "sanitize_text s = strip (foldl f s harmful_tags)"
    by (simp add: sanitize_text_def f_def)
  also have "\<dots> = []"
    using fold [OF assms(1)] by (simp add: strip_def)
  finally show ?thesis by (simp add: s_def v_def)
qed

lemma sanitize_formula: "sanitize_text ''<formula x>'' = []"
  by code_simp

lemma sanitize_inputs: "sanitize_text ''<inputs>'' = []"
  by code_simp

lemma scenario_c:
  "sanitize_text ''<script>alert('x')</script>Valid content'' = ''Valid content''"
  by code_simp

lemma scenario_c_clean: "\<not> substring_in ''<script>'' ''Valid content''"
  by code_simp

lemma script_attributes_lines:
  "sanitize_text (''A <SCRipt src=a.js async>'' @ [CHR 0x0A] @ ''x = 1;'' @ [CHR 0x0A]
                    @ ''</scRIPT> B'') = ''A  B''"
  by code_simp

lemma script_shortest: "sanitize_text ''<script>a</script>b</script>'' = ''b</script>''"
  by code_simp

lemma starts_ci_spelled: "lower o' = lower p \<Longrightarrow> starts_ci p (o' @ s)"
proof -
  assume a: "lower o' = lower p"
  then have "length o' = length p"
    unfolding lower_def by (rule map_eq_imp_length_eq)
  then show ?thesis using a by (simp add: starts_ci_def)
qed

lemma after_first_of_body:
  assumes "lower cl = lower q" and "q \<noteq> []"
    and "\<forall>k < length body. \<not> starts_ci q (drop k (body @ cl @ post))"
  shows "after_first q (body @ cl @ post) = Some post"
  using assms(3)
proof (induction body)
  case Nil
  have l: "length cl = length q"
    using assms(1) unfolding lower_def by (rule map_eq_imp_length_eq)
  then obtain c cs where c: "cl @ post = c # cs"
    using assms(2) by (cases cl) auto
  have "starts_ci q (cl @ post)"
    by (rule starts_ci_spelled [OF assms(1)])
  then have "after_first q (cl @ post) = Some (drop (length q) (cl @ post))"
    unfolding c by simp
  then show ?case using l by simp
next
  case (Cons b bs)
  have "\<not> starts_ci q (drop 0 ((b # bs) @ cl @ post))"
    using Cons.prems by blast
  then have 0: "\<not> starts_ci q (b # bs @ cl @ post)" by simp
  have "\<forall>k < length bs. \<not> starts_ci q (drop k (bs @ cl @ post))"
  proof (intro allI impI)
    fix k assume "k < length bs"
    then have "Suc k < length (b # bs)" by simp
    then have "\<not> starts_ci q (drop (Suc k) ((b # bs) @ cl @ post))"
      using Cons.prems by blast
    then show "\<not> starts_ci q (drop k (bs @ cl @ post))" by simp
  qed
  then have "after_first q (bs @ cl @ post) = Some post" by (rule Cons.IH)
  then show ?case using 0 by simp
qed

lemma block_end_of_block:
  assumes "lower o' = lower (''<'' @ tag)" and "CHR ''>'' \<notin> set attrs"
    and "lower cl = lower (''</'' @ tag @ ''>'')"
    and "\<forall>k < length body. \<not> starts_ci (''</'' @ tag @ ''>'') (drop k (body @ cl @ post))"
  shows "block_end tag (o' @ attrs @ ''>'' @ body @ cl @ post) = Some post"
proof -
  have l: "length o' = length (''<'' @ tag)"
    using assms(1) unfolding lower_def by (rule map_eq_imp_length_eq)
  have 1: "starts_ci (''<'' @ tag) (o' @ attrs @ ''>'' @ body @ cl @ post)"
    by (rule starts_ci_spelled [OF assms(1)])
  have 2: "drop (length (''<'' @ tag)) (o' @ attrs @ ''>'' @ body @ cl @ post)
             = attrs @ CHR ''>'' # (body @ cl @ post)"
    using l by simp
  have 3: "after_gt (attrs @ CHR ''>'' # (body @ cl @ post)) = Some (body @ cl @ post)"
    by (rule after_gt_append [OF assms(2)])
  have 4: "after_first (''</'' @ tag @ ''>'') (body @ cl @ post) = Some post"
    by (rule after_first_of_body [OF assms(3) _ assms(4)]) simp
  show ?thesis
    unfolding block_end_def by (simp only: 1 2 3 4 if_True option.case)
qed

lemma remove_blocks_after_text:
  "CHR ''<'' \<notin> set pre \<Longrightarrow> remove_blocks tag (pre @ s) = pre @ remove_blocks tag s"
proof (induction pre)
  case Nil
  show ?case by simp
next
  case (Cons c pre)
  then have "\<not> starts_ci (''<'' @ tag) (c # pre @ s)" by auto
  then have "block_end tag (c # pre @ s) = None"
    by (simp only: block_end_def if_False)
  then show ?case using Cons by simp
qed

lemma remove_blocks_at_block:
  "block_end tag s = Some post \<Longrightarrow> remove_blocks tag s = remove_blocks tag post"
  by (cases s) (simp_all add: block_end_def)

lemma lower_script_open: "lower ''<script'' = ''<script''"
  by code_simp

lemma lower_script_close: "lower ''</script>'' = ''</script>''"
  by code_simp

lemma lower_Script_open: "lower ''<Script'' = ''<script''"
  by code_simp

lemma lower_SCRIPT_close: "lower ''</SCRIPT>'' = ''</script>''"
  by code_simp

lemma no_close_in_b: "\<not> starts_ci ''</script>'' ''b</SCRIPT>c''"
  by code_simp

lemma re_sub_script_c: "re_sub (paired_pattern ''script'') ''c'' = ''c''"
  by code_simp


lemma re_sub_not_removable: "\<not> removable p s \<Longrightarrow> re_sub p s = s"
  by (induction s) (auto split: option.splits)

lemma re_sub_removable: "removable p s \<Longrightarrow> length (re_sub p s) < length s"
proof (induction p s rule: re_sub.induct)
  case (1 p)
  then show ?case by simp
next
  case (2 p c cs)
  show ?case
  proof (cases "re_match p (c # cs)")
    case None
    then have "removable p cs" using "2.prems" by simp
    then have "length (re_sub p cs) < length cs" using "2.IH"(1) None by simp
    then show ?thesis using None by simp
  next
    case (Some t)
    show ?thesis
    proof (cases "length t < length (c # cs)")
      case True
      have "length (re_sub p t) \<le> length t" by (rule length_re_sub)
      then show ?thesis using Some True by simp
    next
      case False
      then have "removable p cs" using "2.prems" Some by simp
      then have "length (re_sub p cs) < length cs" using "2.IH"(3) Some False by simp
      then show ?thesis using Some False by simp
    qed
  qed
qed

lemma re_sub_fixed_iff: "re_sub p s = s \<longleftrightarrow> \<not> removable p s"
  using re_sub_not_removable [of p s] re_sub_removable [of p s] by auto

















lemma strip_decomp:
  "\<exists>l r. s = l @ strip s @ r \<and> (\<forall>x \<in> set l. isspace x) \<and> (\<forall>x \<in> set r. isspace x)"
proof -
  define u where "u = dropWhile isspace s"
  define tw where "tw = takeWhile isspace (rev u)"
  have 1: "s = takeWhile isspace s @ u" by (simp add: u_def)
  have "rev u = tw @ dropWhile isspace (rev u)" by (simp add: tw_def)
  then have "rev (rev u) = rev (tw @ dropWhile isspace (rev u))" by (rule arg_cong)
  then have 2: "u = strip s @ rev tw" by (simp add: strip_def u_def)
  have 3: "\<forall>x \<in> set (takeWhile isspace s). isspace x" by (auto dest: set_takeWhileD)
  have 4: "\<forall>x \<in> set (rev tw). isspace x" by (auto simp add: tw_def dest: set_takeWhileD)
  from 1 2 have "s = takeWhile isspace s @ strip s @ rev tw" by simp
  then show ?thesis using 3 4 by blast
qed

lemma strip_edges:
  "strip s \<noteq> [] \<Longrightarrow> \<not> isspace (hd (strip s)) \<and> \<not> isspace (last (strip s))"
proof -
  assume n: "strip s \<noteq> []"
  define u where "u = dropWhile isspace s"
  define v where "v = dropWhile isspace (rev u)"
  have s: "strip s = rev v" by (simp add: strip_def u_def v_def)
  then have v: "v \<noteq> []" using n by simp
  then have "\<not> isspace (hd v)" unfolding v_def by (rule hd_dropWhile)
  then have l: "\<not> isspace (last (strip s))" using v by (simp add: s last_rev)
  have "rev u = takeWhile isspace (rev u) @ v" by (simp add: v_def)
  then have "last (rev u) = last v" using v by (metis last_appendR)
  moreover have "u \<noteq> []" using v by (auto simp add: v_def)
  ultimately have "last v = hd u" by (simp add: last_rev)
  moreover have "\<not> isspace (hd u)"
    using \<open>u \<noteq> []\<close> unfolding u_def by (rule hd_dropWhile)
  ultimately have "\<not> isspace (hd (strip s))" using v by (simp add: s hd_rev)
  then show ?thesis using l by simp
qed














lemma trim_example:
  "sanitize_text ([CHR 0x09] @ '' <script>x</script> ok '' @ [CHR 0x0A]) = ''ok''"
  by code_simp

lemma handle_invalid_spec_other_type:
  "handle_invalid_spec t_res order (PStr s) w
     = Inl (AttributeError (CHR 0x27 # ''str'' @ CHR 0x27 # '' object has no attribute ''
                              @ CHR 0x27 # ''content'' @ [CHR 0x27]))"
  by (simp add: handle_invalid_spec_def instance_of_def type_name_def)

lemma spec_str_x_pdf:
  "spec_str (SpecInput ''x'' (Some ''PDF'') None 0) = ''SpecInput(format=pdf, length=1, valid=False)''"
  by code_simp

lemma errors_x_pdf:
  "(if length (strip (content (SpecInput ''x'' (Some ''PDF'') None 0))) < 2
    then [''Content too short (minimum 2 characters)''] else [])
   @ (if format (SpecInput ''x'' (Some ''PDF'') None 0) \<notin> {''text'', ''markdown'', ''html''}
      then [''Invalid format '' @ [CHR 0x27] @ format (SpecInput ''x'' (Some ''PDF'') None 0)
              @ [CHR 0x27] @ ''. Valid formats: '' @ join '', '' [''markdown'', ''text'', ''html'']]
      else [])
   = [''Content too short (minimum 2 characters)'',
      ''Invalid format 'pdf'. Valid formats: markdown, text, html'']"
  by code_simp

section \<open>Processing an invalid specification\<close>

text \<open>
  Claim C1. When \<open>process_spec\<close> is given a \<open>SpecInput\<close> instance whose \<open>is_valid()\<close> is
  false, it raises \<open>ValueError\<close> with the text \<open>Invalid specification: \<close> followed by the
  instance's \<open>__str__\<close>, which names its format, content length and validity; nothing is
  returned and the service is left as it was. This is not the branch taken for an argument
  of another type, which returns a result. The instance with content \<open>x\<close> and format
  \<open>text\<close> is invalid, and processing it raises this error.
\<close>

theorem process_spec_invalid_raises:
  "(instance_of w x = Some (a, sp) \<and> \<not> is_valid sp \<longrightarrow>
      process_spec t_proc t_res x w
        = (Inl (ValueError (''Invalid specification: '' @ spec_str sp)), w))
   \<and> \<not> is_valid (SpecInput ''x'' (Some ''text'') md t)
   \<and> (instance_of w x = Some (a, SpecInput ''x'' (Some ''text'') md t) \<longrightarrow>
      process_spec t_proc t_res x w
        = (Inl (ValueError ''Invalid specification: SpecInput(format=text, length=1, valid=False)''),
           w))"
proof -
  let ?sp = "SpecInput ''x'' (Some ''text'') md t"
  have general: "process_spec t_proc t_res x w
        = (Inl (ValueError (''Invalid specification: '' @ spec_str sp')), w)"
    if "instance_of w x = Some (a, sp')" and "\<not> is_valid sp'" for sp'
    using that by (simp add: process_spec_def)
  have "strip ''x'' = ''x''"
    by (simp add: strip_def isspace_def)
  then have inv: "\<not> is_valid ?sp"
    by (simp add: is_valid_def SpecInput_def MIN_CONTENT_LENGTH_def)
  have "format ?sp = ''text''" and "content ?sp = ''x''"
    by (simp_all add: SpecInput_def lower_text)
  then have str: "spec_str ?sp = ''SpecInput(format=text, length=1, valid=False)''"
    unfolding spec_str_def using inv by (simp only: str_nat_length_x str_bool_def if_False append.simps)
  show ?thesis
    using general [of sp] general [of ?sp] inv str by simp
qed

theorem process_spec_invalid_raises_witness:
  "process_spec 1 2 (PSpec 0) (SpecInputService None [SpecInput ''x'' (Some ''text'') None 0])
     = (Inl (ValueError ''Invalid specification: SpecInput(format=text, length=1, valid=False)''),
        SpecInputService None [SpecInput ''x'' (Some ''text'') None 0])"
  using process_spec_invalid_raises
          [of "SpecInputService None [SpecInput ''x'' (Some ''text'') None 0]" "PSpec 0" 0
              "SpecInput ''x'' (Some ''text'') None 0" 1 2 None 0]
  by (simp add: instance_of_def SpecInputService_def)

section \<open>Validity\<close>

text \<open>
  Claim C2. An instance built by the constructor is valid exactly when its content, with
  surrounding whitespace removed, has at least two characters and its format, lower-cased
  by the constructor and \<open>text\<close> when the given format is empty or absent, is \<open>text\<close>,
  \<open>markdown\<close> or \<open>html\<close>. So every spelling of one of the three names in upper- or
  lower-case letters is accepted, and content shorter than two characters after trimming
  is invalid whatever the format.
\<close>

theorem is_valid_iff:
  "(is_valid (SpecInput c fmt md t) \<longleftrightarrow>
      2 \<le> length (strip c)
      \<and> (case fmt of None \<Rightarrow> ''text'' | Some f \<Rightarrow> if f = [] then ''text'' else lower f)
            \<in> {''text'', ''markdown'', ''html''})
   \<and> (name \<in> {''text'', ''markdown'', ''html''} \<and> case_spelling f name \<and> 2 \<le> length (strip c)
        \<longrightarrow> is_valid (SpecInput c (Some f) md t))
   \<and> (length (strip c) < 2 \<longrightarrow> \<not> is_valid (SpecInput c fmt md t))"
proof (intro conjI impI)
  show "is_valid (SpecInput c fmt md t) \<longleftrightarrow>
      2 \<le> length (strip c)
      \<and> (case fmt of None \<Rightarrow> ''text'' | Some f \<Rightarrow> if f = [] then ''text'' else lower f)
            \<in> {''text'', ''markdown'', ''html''}"
    by (rule is_valid_SpecInput)
next
  assume a: "name \<in> {''text'', ''markdown'', ''html''} \<and> case_spelling f name
               \<and> 2 \<le> length (strip c)"
  then have n: "name \<in> {''text'', ''markdown'', ''html''}" and s: "case_spelling f name"
    and l: "2 \<le> length (strip c)" by simp_all
  have low: "lower f = name"
    using case_spelling_lower [OF s valid_names_lower_letters [OF n]] .
  have "name \<noteq> []" using n by auto
  then have "f \<noteq> []" using low by (auto simp add: lower_def)
  then have "(case Some f of None \<Rightarrow> ''text'' | Some f \<Rightarrow> if f = [] then ''text'' else lower f)
               = name"
    using low by simp
  then show "is_valid (SpecInput c (Some f) md t)"
    using n l by (simp only: is_valid_SpecInput simp_thms)
next
  assume "length (strip c) < 2"
  then show "\<not> is_valid (SpecInput c fmt md t)"
    by (simp only: is_valid_SpecInput) simp
qed

theorem is_valid_iff_witness:
  "is_valid (SpecInput ''ok'' (Some ''MarkDown'') None 0)
   \<and> \<not> is_valid (SpecInput '' x  '' (Some ''html'') None 0)"
proof -
  have 1: "case_spelling ''MarkDown'' ''markdown''"
    by (simp add: case_spelling_def)
  have 2: "''markdown'' \<in> {''text'', ''markdown'', ''html''}" by simp
  have 3: "2 \<le> length (strip ''ok'')" and 4: "length (strip '' x  '') < 2"
    by (simp_all only: strip_ok strip_x_padded) simp_all
  from is_valid_iff [of "''ok''" "Some ''MarkDown''" None 0 "''markdown''" "''MarkDown''",
         THEN conjunct2, THEN conjunct1] 1 2 3
  have a: "is_valid (SpecInput ''ok'' (Some ''MarkDown'') None 0)" by (simp only: simp_thms)
  from is_valid_iff [of "'' x  ''" "Some ''html''" None 0 "''html''" "''html''",
         THEN conjunct2, THEN conjunct2] 4
  have b: "\<not> is_valid (SpecInput '' x  '' (Some ''html'') None 0)" by (simp only: simp_thms)
  from a b show ?thesis by (rule conjI)
qed

section \<open>The cache of \<open>sanitize\<close>\<close>

text \<open>
  Claim C5. Once \<open>sanitize()\<close> has been called on an instance, every later call on that
  instance returns the same string, whatever the caller does to the instance in between:
  assignments to \<open>content\<close>, \<open>format\<close> or \<open>metadata\<close>, and calls of \<open>is_valid()\<close> or
  \<open>sanitize()\<close>. The private field \<open>_sanitized_content\<close> is written by \<open>sanitize\<close> only.
\<close>

theorem sanitize_cache_stable:
  "sanitize sp = (r, sp1) \<longrightarrow>
     fst (sanitize (foldl apply_event sp1 evs)) = r
     \<and> fst (sanitize (sp1\<lparr>content := c'\<rparr>)) = r
     \<and> fst (sanitize sp1) = r"
proof
  assume a: "sanitize sp = (r, sp1)"
  have c: "sanitized_content sp1 = Some r"
    using sanitize_cached [of sp] a by simp
  have 1: "fst (sanitize (foldl apply_event sp1 evs)) = r"
    using events_keep_cache [OF c, of evs] by (simp add: sanitize_hit)
  have 2: "fst (sanitize (sp1\<lparr>content := c'\<rparr>)) = r"
    using c by (simp add: sanitize_hit)
  have 3: "fst (sanitize sp1) = r"
    using c by (simp add: sanitize_hit)
  from 1 2 3 show "fst (sanitize (foldl apply_event sp1 evs)) = r
     \<and> fst (sanitize (sp1\<lparr>content := c'\<rparr>)) = r
     \<and> fst (sanitize sp1) = r" by simp
qed

theorem sanitize_cache_stable_witness:
  "fst (sanitize (foldl apply_event (snd (sanitize (SpecInput ''ab'' None None 0)))
                    [Assign_content ''<b>other</b>'', Call_sanitize, Assign_content ''z''])) = ''ab''"
proof -
  have s: "sanitize (SpecInput ''ab'' None None 0)
             = (''ab'', (SpecInput ''ab'' None None 0)\<lparr>sanitized_content := Some ''ab''\<rparr>)"
    by (simp add: sanitize_def SpecInput_def sanitize_text_ab Let_def)
  show ?thesis
    using sanitize_cache_stable [of "SpecInput ''ab'' None None 0" "''ab''"
            "(SpecInput ''ab'' None None 0)\<lparr>sanitized_content := Some ''ab''\<rparr>"
            "[Assign_content ''<b>other</b>'', Call_sanitize, Assign_content ''z'']"] s
    by simp
qed

section \<open>An argument of another type\<close>

text \<open>
  Claim C6. For an argument that is not a \<open>SpecInput\<close> instance, such as a string, \<open>None\<close>
  or a number, \<open>process_spec\<close> raises nothing: it returns a result with \<open>success\<close> false and
  the message \<open>Invalid input: must be SpecInput instance\<close>, and the service, its history
  included, is unchanged.
\<close>

theorem process_spec_wrong_type:
  "(\<not> isinstance_SpecInput w x \<longrightarrow>
      process_spec t_proc t_res x w
        = (Inr \<lparr>success = False, message = ''Invalid input: must be SpecInput instance'',
                data = [], timestamp = t_res\<rparr>, w)
      \<and> get_processed_specs (snd (process_spec t_proc t_res x w)) = get_processed_specs w)
   \<and> \<not> isinstance_SpecInput w (PStr s)
   \<and> \<not> isinstance_SpecInput w PNone
   \<and> \<not> isinstance_SpecInput w (PInt i)"
  by (cases "instance_of w x")
     (simp_all add: process_spec_def isinstance_SpecInput_def SpecInputProcessingResult_def
        instance_of_def)

theorem process_spec_wrong_type_witness:
  "process_spec 1 2 (PStr ''not a spec object'') (SpecInputService None [])
     = (Inr \<lparr>success = False, message = ''Invalid input: must be SpecInput instance'',
             data = [], timestamp = 2\<rparr>, SpecInputService None [])"
  using process_spec_wrong_type [of "SpecInputService None []" "PStr ''not a spec object''" 1 2]
  by simp

section \<open>The history of processed specifications\<close>




section \<open>Listing validation errors\<close>

text \<open>
  Claim C7. \<open>handle_invalid_spec\<close> returns a result and raises nothing for \<open>None\<close> and for
  every \<open>SpecInput\<close> instance. For \<open>None\<close> the result is a failure with the message
  \<open>Cannot process null specification\<close>. For an instance it is a failure whose
  \<open>data['errors']\<close> holds, in this order, the message that the content is too short, with
  the minimum length 2, exactly when the trimmed content has fewer than two characters, and
  then the message that the format is invalid, with the format and the list of valid
  formats, exactly when the format is none of \<open>text\<close>, \<open>markdown\<close>, \<open>html\<close>. The list has at
  most two entries and is empty exactly when the instance is valid. The valid formats are
  listed in the order in which the run iterates over the set, one of the six orders.
\<close>

theorem handle_invalid_spec_results:
  "handle_invalid_spec t_res order PNone w
     = Inr \<lparr>success = False, message = ''Cannot process null specification'', data = [],
            timestamp = t_res\<rparr>
   \<and> (instance_of w x = Some (a, sp) \<longrightarrow>
        handle_invalid_spec t_res order x w
          = Inr \<lparr>success = False, message = ''Invalid specification: '' @ spec_str sp,
                 data = [(''errors'', DList (get_validation_errors order sp))],
                 timestamp = t_res\<rparr>
        \<and> get_validation_errors order sp
            = (if length (strip (content sp)) < 2
               then [''Content too short (minimum 2 characters)''] else [])
              @ (if format sp \<notin> {''text'', ''markdown'', ''html''}
                 then [''Invalid format '' @ [CHR 0x27] @ format sp @ [CHR 0x27]
                         @ ''. Valid formats: '' @ join '', '' order]
                 else [])
        \<and> length (get_validation_errors order sp) \<le> 2
        \<and> (get_validation_errors order sp = [] \<longleftrightarrow> is_valid sp))
   \<and> (distinct order \<and> set order = VALID_FORMATS \<longrightarrow>
        join '', '' order \<in>
           {''text, markdown, html'', ''text, html, markdown'', ''markdown, text, html'',
            ''markdown, html, text'', ''html, text, markdown'', ''html, markdown, text''})"
proof (intro conjI impI)
  show "handle_invalid_spec t_res order PNone w
     = Inr \<lparr>success = False, message = ''Cannot process null specification'', data = [],
            timestamp = t_res\<rparr>"
    by (simp add: handle_invalid_spec_def SpecInputProcessingResult_def)
next
  assume i: "instance_of w x = Some (a, sp)"
  then have "x = PSpec a"
    by (cases x) (simp_all add: instance_of_def split: if_splits)
  then show "handle_invalid_spec t_res order x w
          = Inr \<lparr>success = False, message = ''Invalid specification: '' @ spec_str sp,
                 data = [(''errors'', DList (get_validation_errors order sp))],
                 timestamp = t_res\<rparr>"
    using i by (simp add: handle_invalid_spec_def SpecInputProcessingResult_def)
next
  show "get_validation_errors order sp
            = (if length (strip (content sp)) < 2
               then [''Content too short (minimum 2 characters)''] else [])
              @ (if format sp \<notin> {''text'', ''markdown'', ''html''}
                 then [''Invalid format '' @ [CHR 0x27] @ format sp @ [CHR 0x27]
                         @ ''. Valid formats: '' @ join '', '' order]
                 else [])"
    by (rule get_validation_errors_eq)
next
  show "length (get_validation_errors order sp) \<le> 2"
    unfolding get_validation_errors_eq by simp
next
  show "get_validation_errors order sp = [] \<longleftrightarrow> is_valid sp"
    unfolding get_validation_errors_eq is_valid_eq by (simp add: not_less)
next
  assume "distinct order \<and> set order = VALID_FORMATS"
  then show "join '', '' order \<in>
           {''text, markdown, html'', ''text, html, markdown'', ''markdown, text, html'',
            ''markdown, html, text'', ''html, text, markdown'', ''html, markdown, text''}"
    using valid_formats_orders [of order] by (simp only: simp_thms)
qed

theorem handle_invalid_spec_results_witness:
  "handle_invalid_spec 9 [''markdown'', ''text'', ''html''] (PSpec 0)
       (SpecInputService None [SpecInput ''x'' (Some ''PDF'') None 0])
     = Inr \<lparr>success = False,
            message = ''Invalid specification: SpecInput(format=pdf, length=1, valid=False)'',
            data = [(''errors'', DList [''Content too short (minimum 2 characters)'',
                       ''Invalid format 'pdf'. Valid formats: markdown, text, html''])],
            timestamp = 9\<rparr>
   \<and> join '', '' [''markdown'', ''text'', ''html''] = ''markdown, text, html''"
proof -
  let ?sp = "SpecInput ''x'' (Some ''PDF'') None 0"
  let ?w = "SpecInputService None [?sp]"
  let ?order = "[''markdown'', ''text'', ''html'']"
  have i: "instance_of ?w (PSpec 0) = Some (0, ?sp)"
    by (simp add: instance_of_def SpecInputService_def)
  have o: "distinct ?order \<and> set ?order = VALID_FORMATS"
    by (simp add: VALID_FORMATS_def)
  note t = handle_invalid_spec_results [of 9 ?order ?w "PSpec 0" 0 ?sp]
  from t i have 1: "handle_invalid_spec 9 ?order (PSpec 0) ?w
          = Inr \<lparr>success = False, message = ''Invalid specification: '' @ spec_str ?sp,
                 data = [(''errors'', DList (get_validation_errors ?order ?sp))],
                 timestamp = 9\<rparr>"
    by (simp only: simp_thms)
  from t i have 2: "get_validation_errors ?order ?sp
      = [''Content too short (minimum 2 characters)'',
         ''Invalid format 'pdf'. Valid formats: markdown, text, html'']"
    by (simp only: simp_thms errors_x_pdf)
  have 3: "join '', '' ?order = ''markdown, text, html''"
    by simp
  show ?thesis
    unfolding 1 2 spec_str_x_pdf 3 by simp
qed

section \<open>Sanitizing twice\<close>




section \<open>Removing script blocks\<close>

text \<open>
  Claim C8. The first step of \<open>sanitize\<close> scans the content from the left and removes each
  \<open><script ...> ... </script>\<close> block it meets, and the result of the later steps is trimmed:
  what \<open>sanitize\<close> returns is that result without the whitespace at its two ends, and it
  neither begins nor ends with whitespace.
  A block is the opening tag in any case, with anything but \<open>>\<close> up to its \<open>>\<close>, then any
  text, line breaks included, up to the first closing tag in any case; a block that follows
  text without \<open><\<close> is removed and the scan goes on after it. For the content
  \<open><script>alert('x')</script>Valid content\<close> the result is \<open>Valid content\<close>, in which
  \<open><script>\<close> does not occur.
\<close>

theorem sanitize_removes_script_blocks:
  "re_match (paired_pattern ''script'') c = block_end ''script'' c
   \<and> re_sub (paired_pattern ''script'') c = remove_blocks ''script'' c
   \<and> sanitize_text c =
       strip (foldl (\<lambda>c tag. re_sub (single_pattern tag) (re_sub (paired_pattern tag) c))
                    (remove_blocks ''script'' c) harmful_tags)
   \<and> (\<exists>l r. foldl (\<lambda>c tag. re_sub (single_pattern tag) (re_sub (paired_pattern tag) c))
                    (remove_blocks ''script'' c) harmful_tags
               = l @ sanitize_text c @ r
             \<and> (\<forall>x \<in> set l. isspace x) \<and> (\<forall>x \<in> set r. isspace x))
   \<and> (sanitize_text c \<noteq> [] \<longrightarrow>
        \<not> isspace (hd (sanitize_text c)) \<and> \<not> isspace (last (sanitize_text c)))
   \<and> (lower o' = ''<script'' \<and> CHR ''>'' \<notin> set attrs \<and> lower cl = ''</script>''
        \<and> (\<forall>k < length body. \<not> starts_ci ''</script>'' (drop k (body @ cl @ post)))
      \<longrightarrow> block_end ''script'' (o' @ attrs @ ''>'' @ body @ cl @ post) = Some post)
   \<and> (CHR ''<'' \<notin> set pre \<and> block_end ''script'' s = Some rest
      \<longrightarrow> re_sub (paired_pattern ''script'') (pre @ s)
            = pre @ re_sub (paired_pattern ''script'') rest)
   \<and> sanitize_text ''<script>alert('x')</script>Valid content'' = ''Valid content''
   \<and> fst (sanitize (SpecInput ''<script>alert('x')</script>Valid content'' fmt md t))
       = ''Valid content''
   \<and> \<not> substring_in ''<script>'' (sanitize_text ''<script>alert('x')</script>Valid content'')
   \<and> sanitize_text (''A <SCRipt src=a.js async>'' @ [CHR 0x0A] @ ''x = 1;'' @ [CHR 0x0A]
                       @ ''</scRIPT> B'') = ''A  B''
   \<and> sanitize_text ''<script>a</script>b</script>'' = ''b</script>''
   \<and> sanitize_text ([CHR 0x09] @ '' <script>x</script> ok '' @ [CHR 0x0A]) = ''ok''"
proof (intro conjI impI)
  show "re_match (paired_pattern ''script'') c = block_end ''script'' c"
    by (rule re_match_paired)
next
  show "re_sub (paired_pattern ''script'') c = remove_blocks ''script'' c"
    by (rule re_sub_paired)
next
  show "sanitize_text c =
       strip (foldl (\<lambda>c tag. re_sub (single_pattern tag) (re_sub (paired_pattern tag) c))
                    (remove_blocks ''script'' c) harmful_tags)"
    by (simp only: sanitize_text_def re_sub_paired)
next
  have e: "sanitize_text c =
       strip (foldl (\<lambda>c tag. re_sub (single_pattern tag) (re_sub (paired_pattern tag) c))
                    (remove_blocks ''script'' c) harmful_tags)"
    by (simp only: sanitize_text_def re_sub_paired)
  show "\<exists>l r. foldl (\<lambda>c tag. re_sub (single_pattern tag) (re_sub (paired_pattern tag) c))
                    (remove_blocks ''script'' c) harmful_tags
               = l @ sanitize_text c @ r
             \<and> (\<forall>x \<in> set l. isspace x) \<and> (\<forall>x \<in> set r. isspace x)"
    unfolding e by (rule strip_decomp)
next
  assume "sanitize_text c \<noteq> []"
  then show "\<not> isspace (hd (sanitize_text c))"
    unfolding sanitize_text_def using strip_edges by blast
next
  assume "sanitize_text c \<noteq> []"
  then show "\<not> isspace (last (sanitize_text c))"
    unfolding sanitize_text_def using strip_edges by blast
next
  assume a: "lower o' = ''<script'' \<and> CHR ''>'' \<notin> set attrs \<and> lower cl = ''</script>''
        \<and> (\<forall>k < length body. \<not> starts_ci ''</script>'' (drop k (body @ cl @ post)))"
  have 1: "lower o' = lower (''<'' @ ''script'')"
    using a by (simp add: lower_script_open)
  have 2: "lower cl = lower (''</'' @ ''script'' @ ''>'')"
    using a by (simp add: lower_script_close)
  have 3: "CHR ''>'' \<notin> set attrs"
    using a by simp
  have 4: "\<forall>k < length body. \<not> starts_ci (''</'' @ ''script'' @ ''>'') (drop k (body @ cl @ post))"
    using a by simp
  show "block_end ''script'' (o' @ attrs @ ''>'' @ body @ cl @ post) = Some post"
    by (rule block_end_of_block [OF 1 3 2 4])
next
  assume b: "CHR ''<'' \<notin> set pre \<and> block_end ''script'' s = Some rest"
  then have "remove_blocks ''script'' (pre @ s) = pre @ remove_blocks ''script'' rest"
    using remove_blocks_after_text [of pre "''script''" s]
          remove_blocks_at_block [of "''script''" s rest]
    by (simp only: simp_thms)
  then show "re_sub (paired_pattern ''script'') (pre @ s)
            = pre @ re_sub (paired_pattern ''script'') rest"
    by (simp only: re_sub_paired)
next
  show "sanitize_text ''<script>alert('x')</script>Valid content'' = ''Valid content''"
    by (rule scenario_c)
next
  show "fst (sanitize (SpecInput ''<script>alert('x')</script>Valid content'' fmt md t))
       = ''Valid content''"
    by (simp only: sanitize_SpecInput scenario_c)
next
  show "\<not> substring_in ''<script>'' (sanitize_text ''<script>alert('x')</script>Valid content'')"
    by (simp only: scenario_c scenario_c_clean not_False_eq_True)
next
  show "sanitize_text (''A <SCRipt src=a.js async>'' @ [CHR 0x0A] @ ''x = 1;'' @ [CHR 0x0A]
                       @ ''</scRIPT> B'') = ''A  B''"
    by (rule script_attributes_lines)
next
  show "sanitize_text ''<script>a</script>b</script>'' = ''b</script>''"
    by (rule script_shortest)
next
  show "sanitize_text ([CHR 0x09] @ '' <script>x</script> ok '' @ [CHR 0x0A]) = ''ok''"
    by (rule trim_example)
qed

theorem sanitize_removes_script_blocks_witness:
  "re_sub (paired_pattern ''script'') ''a<Script x>b</SCRIPT>c'' = ''ac''
   \<and> \<not> isspace (hd (sanitize_text ([CHR 0x09] @ '' <script>x</script> ok '' @ [CHR 0x0A])))
   \<and> \<not> isspace (last (sanitize_text ([CHR 0x09] @ '' <script>x</script> ok '' @ [CHR 0x0A])))"
proof -
  have k: "\<forall>k < length ''b''. \<not> starts_ci ''</script>'' (drop k (''b'' @ ''</SCRIPT>'' @ ''c''))"
    using no_close_in_b by simp
  have x: "CHR ''>'' \<notin> set '' x''" and p: "CHR ''<'' \<notin> set ''a''"
    by simp_all
  note t = sanitize_removes_script_blocks
  from t [of _ "''<Script''" "'' x''" "''</SCRIPT>''" "''b''" "''c''",
          THEN conjunct2, THEN conjunct2, THEN conjunct2, THEN conjunct2, THEN conjunct2,
          THEN conjunct1]
       lower_Script_open lower_SCRIPT_close x k
  have e: "block_end ''script'' (''<Script'' @ '' x'' @ ''>'' @ ''b'' @ ''</SCRIPT>'' @ ''c'') = Some ''c''"
    by (simp only: simp_thms)
  from t [of _ _ _ _ _ _ "''a''" "''<Script'' @ '' x'' @ ''>'' @ ''b'' @ ''</SCRIPT>'' @ ''c''" "''c''",
          THEN conjunct2, THEN conjunct2, THEN conjunct2, THEN conjunct2, THEN conjunct2,
          THEN conjunct2, THEN conjunct1] p e
  have "re_sub (paired_pattern ''script'') (''a'' @ ''<Script'' @ '' x'' @ ''>'' @ ''b'' @ ''</SCRIPT>'' @ ''c'')
          = ''a'' @ re_sub (paired_pattern ''script'') ''c''"
    by (simp only: simp_thms)
  then have a: "re_sub (paired_pattern ''script'') ''a<Script x>b</SCRIPT>c'' = ''ac''"
    by (simp only: append.simps re_sub_script_c)
  have n: "sanitize_text ([CHR 0x09] @ '' <script>x</script> ok '' @ [CHR 0x0A]) \<noteq> []"
    by (simp only: trim_example) simp
  from t [of "[CHR 0x09] @ '' <script>x</script> ok '' @ [CHR 0x0A]",
          THEN conjunct2, THEN conjunct2, THEN conjunct2, THEN conjunct2, THEN conjunct1] n
  have b: "\<not> isspace (hd (sanitize_text ([CHR 0x09] @ '' <script>x</script> ok '' @ [CHR 0x0A])))
         \<and> \<not> isspace (last (sanitize_text ([CHR 0x09] @ '' <script>x</script> ok '' @ [CHR 0x0A])))"
    by (simp only: simp_thms)
  from a b show ?thesis by (rule conjI)
qed

section \<open>Lengths\<close>

text \<open>
  Claim C9 says that in every success result of \<open>process_spec\<close> the sanitized length is at
  most the original length. It fails when the content is assigned after \<open>sanitize\<close> has
  cached its result: the result reports the length of the cached text beside the length
  of the new content.
\<close>

theorem sanitized_length_counterexample:
  "fst (process_spec 1 2 (PSpec 0)
         (SpecInputService None
            [(snd (sanitize (SpecInput ''hello world'' None None 0)))\<lparr>content := ''hi''\<rparr>]))
     = Inr \<lparr>success = True, message = ''Specification processed successfully'',
            data = [(''original_length'', DInt 2), (''sanitized_length'', DInt 11),
                    (''format'', DStr ''text''), (''created_at'', DIso 0),
                    (''processed_at'', DIso 1)],
            timestamp = 2\<rparr>"
  by code_simp

text \<open>
  Claim C9, amended. What \<open>sanitize\<close> computes from a content is never longer than that
  content. So in every success result of \<open>process_spec\<close> on an instance whose cache is empty
  or was computed from its present content, the sanitized length is at most the original
  length; every instance whose content has not been assigned since its construction is
  such an instance.
\<close>

theorem sanitize_never_lengthens:
  "length (sanitize_text c) \<le> length c
   \<and> length (fst (sanitize (SpecInput c fmt md t))) \<le> length c
   \<and> ((\<forall>e \<in> set evs. \<forall>c'. e \<noteq> Assign_content c')
        \<longrightarrow> cache_consistent (foldl apply_event (SpecInput c fmt md t) evs))
   \<and> (instance_of w x = Some (a, sp) \<and> cache_consistent sp
        \<and> process_spec t_proc t_res x w = (Inr r, w') \<and> success r
      \<longrightarrow> (\<exists>n m. map_of (data r) ''original_length'' = Some (DInt n)
                 \<and> map_of (data r) ''sanitized_length'' = Some (DInt m) \<and> m \<le> n))"
proof (intro conjI impI)
  show "length (sanitize_text c) \<le> length c"
    by (rule length_sanitize_text)
next
  show "length (fst (sanitize (SpecInput c fmt md t))) \<le> length c"
    unfolding sanitize_SpecInput by (rule length_sanitize_text)
next
  assume "\<forall>e \<in> set evs. \<forall>c'. e \<noteq> Assign_content c'"
  then show "cache_consistent (foldl apply_event (SpecInput c fmt md t) evs)"
    by (rule cache_consistent_events [OF cache_consistent_SpecInput])
next
  assume h: "instance_of w x = Some (a, sp) \<and> cache_consistent sp
        \<and> process_spec t_proc t_res x w = (Inr r, w') \<and> success r"
  then have "process_spec t_proc t_res x w = (Inr r, w')" and "success r"
    by simp_all
  from process_spec_success [OF this] obtain a' sp' where
    i: "instance_of w x = Some (a', sp')" and n: "info_raises (logger w) = None"
    and b: "process_body t_proc t_res a' sp' w = (Inr r, w')" by blast
  have "sp' = sp" using i h by simp
  then have d: "data r = [(''original_length'', DInt (length (content sp))),
                    (''sanitized_length'', DInt (length (fst (sanitize sp)))),
                    (''format'', DStr (format sp)),
                    (''created_at'', DIso (created_at sp)),
                    (''processed_at'', DIso t_proc)]"
    using b by (auto simp add: process_body_returns [OF n])
  have "length (fst (sanitize sp)) \<le> length (content sp)"
    using h by (simp add: sanitize_consistent length_sanitize_text)
  then show "\<exists>n m. map_of (data r) ''original_length'' = Some (DInt n)
                 \<and> map_of (data r) ''sanitized_length'' = Some (DInt m) \<and> m \<le> n"
    unfolding d by simp
qed

theorem sanitize_never_lengthens_witness:
  "cache_consistent (foldl apply_event (SpecInput ''ab'' None None 0) [Call_sanitize, Call_is_valid])
   \<and> (\<exists>r w'. process_spec 1 2 (PSpec 0) (SpecInputService None [SpecInput ''ab'' None None 0])
                = (Inr r, w') \<and> success r
             \<and> (\<exists>n m. map_of (data r) ''original_length'' = Some (DInt n)
                      \<and> map_of (data r) ''sanitized_length'' = Some (DInt m) \<and> m \<le> n))"
proof -
  let ?sp = "SpecInput ''ab'' None None 0"
  let ?w = "SpecInputService None [?sp]"
  have e: "\<forall>e \<in> set [Call_sanitize, Call_is_valid]. \<forall>c'. e \<noteq> Assign_content c'"
    by simp
  have i: "instance_of ?w (PSpec 0) = Some (0, ?sp)"
    by (simp add: instance_of_def SpecInputService_def)
  have c: "cache_consistent ?sp"
    by (simp add: cache_consistent_def SpecInput_def)
  have n: "info_raises (logger ?w) = None"
    by (simp add: SpecInputService_def getLogger_def)
  have "process_spec 1 2 (PSpec 0) ?w = process_body 1 2 0 ?sp ?w"
    by (rule process_spec_valid [OF i is_valid_ab n])
  then obtain r w' where p: "process_spec 1 2 (PSpec 0) ?w = (Inr r, w')" and s: "success r"
    by (simp add: process_body_returns [OF n])
  note t = sanitize_never_lengthens
             [of "''ab''" None None 0 "[Call_sanitize, Call_is_valid]" ?w "PSpec 0" 0 ?sp 1 2 r w']
  from t e have 1: "cache_consistent (foldl apply_event ?sp [Call_sanitize, Call_is_valid])"
    by (simp only: simp_thms)
  from t i c p s have 2: "\<exists>n m. map_of (data r) ''original_length'' = Some (DInt n)
                      \<and> map_of (data r) ''sanitized_length'' = Some (DInt m) \<and> m \<le> n"
    by (simp only: simp_thms)
  from 1 2 p s show ?thesis by blast
qed

section \<open>Tags whose name begins with a harmful name\<close>

text \<open>
  Claim C10. The pattern for a single tag asks for \<open><\<close>, the harmful name, and then
  anything but \<open>>\<close> up to the next \<open>>\<close>; it does not ask for the name to end there. So it
  matches every tag whose name begins with a harmful name, and \<open>sanitize\<close> removes such a
  tag: \<open><formula x>\<close> and \<open><inputs>\<close> are sanitized to the empty string.
\<close>

theorem single_pattern_matches_name_prefix:
  "(CHR ''>'' \<notin> set rest \<longrightarrow>
      re_match (single_pattern tag) (''<'' @ tag @ rest @ ''>'' @ post) = Some post)
   \<and> (tag \<in> set harmful_tags \<and> CHR ''>'' \<notin> set rest \<and> CHR ''<'' \<notin> set rest \<longrightarrow>
      sanitize_text (''<'' @ tag @ rest @ ''>'') = [])
   \<and> sanitize_text ''<formula x>'' = []
   \<and> sanitize_text ''<inputs>'' = []"
proof (intro conjI impI)
  assume "CHR ''>'' \<notin> set rest"
  then show "re_match (single_pattern tag) (''<'' @ tag @ rest @ ''>'' @ post) = Some post"
    by (rule re_match_single_prefix)
next
  assume "tag \<in> set harmful_tags \<and> CHR ''>'' \<notin> set rest \<and> CHR ''<'' \<notin> set rest"
  then show "sanitize_text (''<'' @ tag @ rest @ ''>'') = []"
    using sanitize_single_tag [of tag rest] by (simp only: simp_thms)
next
  show "sanitize_text ''<formula x>'' = []"
    by (rule sanitize_formula)
next
  show "sanitize_text ''<inputs>'' = []"
    by (rule sanitize_inputs)
qed

theorem single_pattern_matches_name_prefix_witness:
  "re_match (single_pattern ''form'') ''<formula x>kept'' = Some ''kept''
   \<and> sanitize_text ''<embedded-thing>'' = []"
proof -
  have 1: "CHR ''>'' \<notin> set ''ula x''" by simp
  have 2: "''embed'' \<in> set harmful_tags" by (simp add: harmful_tags_def)
  have 3: "CHR ''>'' \<notin> set ''ded-thing''" and 4: "CHR ''<'' \<notin> set ''ded-thing''" by simp_all
  from single_pattern_matches_name_prefix [of "''ula x''" "''form''" "''kept''", THEN conjunct1] 1
  have a: "re_match (single_pattern ''form'') ''<formula x>kept'' = Some ''kept''" by simp
  from single_pattern_matches_name_prefix [of "''ded-thing''" "''embed''", THEN conjunct2, THEN conjunct1]
       2 3 4
  have b: "sanitize_text ''<embedded-thing>'' = []" by simp
  from a b show ?thesis by (rule conjI)
qed

end
